theory Spec2Isabelle
  imports Main
begin

section \<open>Python string primitives used by the transcript code\<close>

text \<open>
  A Python \<open>str\<close> is modelled as a \<open>string\<close>; a \<open>char\<close> stands for a code point
  below 256. The functions below follow the CPython behaviour of \<open>str.strip()\<close>,
  \<open>str.splitlines()\<close>, \<open>str.startswith\<close>, the \<open>in\<close> operator on strings,
  \<open>str.join\<close> and \<open>str.lower()\<close> on such code points.
\<close>

definition LF :: char where
  "LF = CHR 0x0A"

definition CR :: char where
  "CR = CHR 0x0D"

text \<open>Whitespace as \<open>str.strip()\<close> sees it: TAB, LF, VT, FF, CR, FS, GS, RS, US, space,
  NEL and NBSP.\<close>

definition is_space :: "char \<Rightarrow> bool" where
  "is_space c = (c \<in> set [CHR 0x09, CHR 0x0A, CHR 0x0B, CHR 0x0C, CHR 0x0D,
                            CHR 0x1C, CHR 0x1D, CHR 0x1E, CHR 0x1F, CHR 0x20,
                            CHR 0x85, CHR 0xA0])"

text \<open>Line boundaries of \<open>str.splitlines()\<close>: LF, CR, VT, FF, FS, GS, RS, NEL
  (and CR LF taken as one boundary).\<close>

definition is_linebreak :: "char \<Rightarrow> bool" where
  "is_linebreak c = (c \<in> set [CHR 0x0A, CHR 0x0D, CHR 0x0B, CHR 0x0C,
                                CHR 0x1C, CHR 0x1D, CHR 0x1E, CHR 0x85])"

definition lstrip :: "string \<Rightarrow> string" where
  "lstrip s = dropWhile is_space s"

definition rstrip :: "string \<Rightarrow> string" where
  "rstrip s = rev (dropWhile is_space (rev s))"

definition strip :: "string \<Rightarrow> string" where
  "strip s = rstrip (lstrip s)"

fun splitlines_from :: "string \<Rightarrow> string \<Rightarrow> string list" where
  "splitlines_from cur [] = (if cur = [] then [] else [cur])"
| "splitlines_from cur [c] = (if is_linebreak c then [cur] else [cur @ [c]])"
| "splitlines_from cur (c # d # cs) =
     (if c = CR \<and> d = LF then cur # splitlines_from [] cs
      else if is_linebreak c then cur # splitlines_from [] (d # cs)
      else splitlines_from (cur @ [c]) (d # cs))"

definition splitlines :: "string \<Rightarrow> string list" where
  "splitlines s = splitlines_from [] s"

definition startswith :: "string \<Rightarrow> string \<Rightarrow> bool" where
  "startswith s p = (take (length p) s = p)"

text \<open>\<open>contains s sub\<close> is Python's \<open>sub in s\<close>.\<close>

fun contains :: "string \<Rightarrow> string \<Rightarrow> bool" where
  "contains [] sub = (sub = [])"
| "contains (c # cs) sub = (startswith (c # cs) sub \<or> contains cs sub)"

text \<open>\<open>str_join sep xs\<close> is Python's \<open>sep.join(xs)\<close>.\<close>

fun str_join :: "string \<Rightarrow> string list \<Rightarrow> string" where
  "str_join sep [] = []"
| "str_join sep [x] = x"
| "str_join sep (x # y # ys) = x @ sep @ str_join sep (y # ys)"

section \<open>Tag and brace stripping\<close>

text \<open>
  \<open>re.sub(r'<[^>]+>', '', line)\<close> and \<open>re.sub(r'\{[^}]+\}', '', line)\<close> have the same
  shape: an opening delimiter, a greedy non-empty run of characters other than the closing
  delimiter, and the closing delimiter. Scanning from the left, a match at an opening
  delimiter exists exactly when the maximal run after it is non-empty and is followed by a
  closing delimiter (a shorter run would be followed by a character of the run, never by
  the closing delimiter); the match is removed and scanning resumes behind it.
\<close>

definition delim_match :: "char \<Rightarrow> string \<Rightarrow> bool" where
  "delim_match r cs =
     (takeWhile (\<lambda>x. x \<noteq> r) cs \<noteq> [] \<and> dropWhile (\<lambda>x. x \<noteq> r) cs \<noteq> [])"

definition after_match :: "char \<Rightarrow> string \<Rightarrow> string" where
  "after_match r cs = tl (dropWhile (\<lambda>x. x \<noteq> r) cs)"

function sub_delim :: "char \<Rightarrow> char \<Rightarrow> string \<Rightarrow> string" where
  "sub_delim l r [] = []"
| "sub_delim l r (c # cs) =
     (if c = l \<and> delim_match r cs then sub_delim l r (after_match r cs)
      else c # sub_delim l r cs)"
  by pat_completeness auto
termination
proof (relation "measure (\<lambda>(l, r, s). length s)")
  fix l r :: char and c :: char and cs :: string
  have "length (dropWhile (\<lambda>x. x \<noteq> r) cs) \<le> length cs"
    by (rule length_dropWhile_le)
  then have "length (after_match r cs) \<le> length cs"
    by (simp add: after_match_def)
  then show "((l, r, after_match r cs), (l, r, c # cs)) \<in> measure (\<lambda>(l, r, s). length s)"
    by simp
qed simp_all

text \<open>The two substitutions of the source, tags first, then braces.\<close>

definition strip_markup :: "string \<Rightarrow> string" where
  "strip_markup line = sub_delim (CHR ''{'') (CHR ''}'') (sub_delim (CHR ''<'') (CHR ''>'') line)"

text \<open>
  A string on which \<open>sub_delim l r\<close> finds nothing to remove: every opening delimiter is
  the last character, or is directly followed by the closing delimiter, or has no closing
  delimiter behind it.
\<close>

fun delim_clean :: "char \<Rightarrow> char \<Rightarrow> string \<Rightarrow> bool" where
  "delim_clean l r [] = True"
| "delim_clean l r (c # cs) =
     ((c \<noteq> l \<or> cs = [] \<or> hd cs = r \<or> r \<notin> set cs) \<and> delim_clean l r cs)"

section \<open>Timestamped rendering: \<open>parse_vtt_with_timestamps\<close>\<close>

definition is_header :: "string \<Rightarrow> bool" where
  "is_header line =
     (startswith line ''WEBVTT'' \<or> startswith line ''Kind:'' \<or> startswith line ''Language:'')"

definition has_arrow :: "string \<Rightarrow> bool" where
  "has_arrow line = contains line ''-->''"

text \<open>
  The loop of \<open>parse_vtt_with_timestamps\<close>. The first argument is the part of \<open>lines\<close>
  from index \<open>i\<close> on, so \<open>lines[i+1]\<close> is the head of the tail and \<open>i + 1 < len(lines)\<close>
  says that the tail is not empty; the second argument is \<open>current_timestamp\<close>. The
  result is the list of strings appended to \<open>formatted_transcript\<close>, in order.
\<close>

fun vtt_loop :: "string list \<Rightarrow> string \<Rightarrow> string list" where
  "vtt_loop [] ts = []"
| "vtt_loop (raw # rest) ts =
     (let line = strip raw in
      if is_header line then vtt_loop rest ts
      else if has_arrow line then
        (let ts' = ''['' @ line @ '']'' in
         case rest of
           [] \<Rightarrow> vtt_loop rest ts'
         | nxt # _ \<Rightarrow>
             (let next_line = strip nxt in
              if next_line \<noteq> [] \<and> \<not> has_arrow next_line then ts' # vtt_loop rest ts'
              else vtt_loop rest []))
      else if line \<noteq> [] \<and> ts \<noteq> [] then
        strip_markup line # [] # vtt_loop rest []
      else vtt_loop rest ts)"

definition parse_vtt_with_timestamps :: "string \<Rightarrow> string" where
  "parse_vtt_with_timestamps vtt_content =
     strip (str_join [LF] (vtt_loop (splitlines (strip vtt_content)) []))"

section \<open>Paragraph formatting: \<open>format_transcript_into_paragraphs\<close>\<close>

definition is_ascii_letter :: "char \<Rightarrow> bool" where
  "is_ascii_letter c =
     (c \<in> set ''abcdefghijklmnopqrstuvwxyzABCDEFGHIJKLMNOPQRSTUVWXYZ'')"

text \<open>
  \<open>re.match(r'^[a-zA-Z]+:.+', s)\<close>: a non-empty maximal run of ASCII letters, a colon, and
  at least one character, the first of which is not a line feed.
\<close>

definition is_label :: "string \<Rightarrow> bool" where
  "is_label s =
     (takeWhile is_ascii_letter s \<noteq> [] \<and>
      (case dropWhile is_ascii_letter s of
         c # d # _ \<Rightarrow> c = CHR '':'' \<and> d \<noteq> LF
       | _ \<Rightarrow> False))"

text \<open>The first loop of the formatter: the strings appended to \<open>text_segments\<close>.\<close>

fun collect_segments :: "string list \<Rightarrow> string list" where
  "collect_segments [] = []"
| "collect_segments (raw # rest) =
     (let line = strip raw in
      if is_header line \<or> has_arrow line \<or> line = [] then collect_segments rest
      else
        (let cleaned_line = strip_markup line in
         if cleaned_line \<noteq> [] \<and> \<not> is_label cleaned_line
         then strip cleaned_line # collect_segments rest
         else collect_segments rest))"

definition text_segments :: "string \<Rightarrow> string list" where
  "text_segments vtt_content = collect_segments (splitlines (strip vtt_content))"

text \<open>
  The two grouping loops have the same body. The first argument is the group size, the
  second the items from index \<open>i\<close> on (so \<open>i == len(items) - 1\<close> says that the tail is
  empty), the third is \<open>current_paragraph\<close>; the result is the list of strings appended
  to \<open>paragraphs\<close>.
\<close>

fun group_loop :: "nat \<Rightarrow> string list \<Rightarrow> string list \<Rightarrow> string list" where
  "group_loop n [] cur = []"
| "group_loop n (x # xs) cur =
     (if length (cur @ [x]) \<ge> n \<or> xs = []
      then str_join '' '' (cur @ [x]) # group_loop n xs []
      else group_loop n xs (cur @ [x]))"

definition MIN_SENTENCE_THRESHOLD :: "string list \<Rightarrow> nat" where
  "MIN_SENTENCE_THRESHOLD segs = max 5 (length segs div 10)"

definition no_text_message :: string where
  "no_text_message = ''Could not extract text content for formatting.''"

definition punkt_missing_message :: string where
  "punkt_missing_message =
     ''Error: NLTK resource '' @ [CHR 0x27] @ ''punkt'' @ [CHR 0x27] @ ''/'' @ [CHR 0x27] @
     ''punkt_tab'' @ [CHR 0x27] @ '' not found. Try manual download.''"

text \<open>
  \<open>nltk.sent_tokenize\<close> is a collaborator: \<open>sent_tokenize\<close> maps the text to \<open>Inr\<close> of
  the sentences, or to \<open>Inl msg\<close> when it raises an exception \<open>e\<close> with \<open>str(e) = msg\<close>.
\<close>

definition format_transcript_into_paragraphs ::
  "(string \<Rightarrow> string + string list) \<Rightarrow> string \<Rightarrow> nat \<Rightarrow> nat \<Rightarrow> string" where
  "format_transcript_into_paragraphs sent_tokenize vtt_content
       sentences_per_paragraph lines_per_fallback_paragraph =
     (let segs = text_segments vtt_content in
      if segs = [] then no_text_message
      else
        (let full_text = str_join '' '' segs in
         case sent_tokenize full_text of
           Inl msg \<Rightarrow>
             if contains msg ''Resource punkt'' \<or> contains msg ''punkt_tab''
             then punkt_missing_message
             else ''Error during sentence tokenization: '' @ msg
         | Inr sentences \<Rightarrow>
             (let formatted_output =
                (if length sentences > MIN_SENTENCE_THRESHOLD segs
                 then group_loop sentences_per_paragraph sentences []
                 else group_loop lines_per_fallback_paragraph segs [])
              in strip (str_join [LF, LF] formatted_output))))"

text \<open>
  Consecutive groups of \<open>n\<close> items, the last one possibly shorter: the partition that the
  grouping loops are meant to compute.
\<close>

function chunks :: "nat \<Rightarrow> 'a list \<Rightarrow> 'a list list" where
  "chunks n [] = []"
| "chunks n (x # xs) =
     (if n = 0 then [] else take n (x # xs) # chunks n (drop n (x # xs)))"
  by pat_completeness auto
termination
  by (relation "measure (\<lambda>(n, xs). length xs)") auto

text \<open>Python's \<open>s.replace("\n\n", " ")\<close>.\<close>

fun replace_blank_lines :: "string \<Rightarrow> string" where
  "replace_blank_lines (a # b # cs) =
     (if a = LF \<and> b = LF then CHR '' '' # replace_blank_lines cs
      else a # replace_blank_lines (b # cs))"
| "replace_blank_lines cs = cs"

section \<open>Identifier extraction: \<open>extract_video_id\<close>\<close>

text \<open>
  \<open>urllib.parse.urlparse\<close> and \<open>parse_qs\<close> are library functions and are taken as
  parameters. \<open>urlparse url\<close> is \<open>None\<close> when the call raises; otherwise it gives the
  three components the code reads. \<open>parse_qs q\<close> is the dictionary from parameter names
  to their lists of values.
\<close>

record parsed_url =
  url_hostname :: "string option"
  url_path :: string
  url_query :: string

text \<open>\<open>str.split('/')\<close>, with the current piece as accumulator.\<close>

fun split_from :: "char \<Rightarrow> string \<Rightarrow> string \<Rightarrow> string list" where
  "split_from sep cur [] = [cur]"
| "split_from sep cur (c # cs) =
     (if c = sep then cur # split_from sep [] cs else split_from sep (cur @ [c]) cs)"

definition split_slash :: "string \<Rightarrow> string list" where
  "split_slash s = split_from (CHR ''/'') [] s"

text \<open>\<open>xs[i]\<close> inside the \<open>try\<close>: an IndexError is caught and gives \<open>None\<close>.\<close>

definition index_or_none :: "'a list \<Rightarrow> nat \<Rightarrow> 'a option" where
  "index_or_none xs i = (if i < length xs then Some (xs ! i) else None)"

text \<open>\<open>d.get('v', [None])[0]\<close> inside the \<open>try\<close>.\<close>

definition first_v :: "(string \<rightharpoonup> string list) \<Rightarrow> string option" where
  "first_v params = (case params ''v'' of None \<Rightarrow> None | Some vs \<Rightarrow> index_or_none vs 0)"

text \<open>The version of \<open>app.py\<close>.\<close>

definition extract_video_id ::
  "(string \<Rightarrow> parsed_url option) \<Rightarrow> (string \<Rightarrow> string \<rightharpoonup> string list) \<Rightarrow> string \<Rightarrow> string option" where
  "extract_video_id urlparse parse_qs url =
     (case urlparse url of
        None \<Rightarrow> None
      | Some parsed \<Rightarrow>
          if url_hostname parsed \<in>
               set [Some ''www.youtube.com'', Some ''youtube.com'', Some ''m.youtube.com'']
          then
            (if url_path parsed = ''/watch'' then first_v (parse_qs (url_query parsed))
             else if startswith (url_path parsed) ''/embed/'' \<or> startswith (url_path parsed) ''/v/''
             then index_or_none (split_slash (url_path parsed)) 2
             else None)
          else if url_hostname parsed = Some ''youtu.be'' then Some (drop 1 (url_path parsed))
          else None)"

text \<open>The version of \<open>script.py\<close>.\<close>

definition extract_video_id_script ::
  "(string \<Rightarrow> parsed_url option) \<Rightarrow> (string \<Rightarrow> string \<rightharpoonup> string list) \<Rightarrow> string \<Rightarrow> string option" where
  "extract_video_id_script urlparse parse_qs url =
     (case urlparse url of
        None \<Rightarrow> None
      | Some parsed \<Rightarrow>
          if url_hostname parsed = Some ''youtu.be'' then Some (drop 1 (url_path parsed))
          else if url_hostname parsed \<in> set [Some ''www.youtube.com'', Some ''youtube.com'']
          then
            (if url_path parsed = ''/watch'' then first_v (parse_qs (url_query parsed))
             else if startswith (url_path parsed) ''/embed/''
             then index_or_none (split_slash (url_path parsed)) 2
             else if startswith (url_path parsed) ''/v/''
             then index_or_none (split_slash (url_path parsed)) 2
             else None)
          else None)"

text \<open>
  The rules of the Identifier Extractor as the specification words them, over the parsed
  URL and the parsed query: \<open>hosts\<close> are the recognized domains, and the segment after a
  prefix is what follows the prefix up to the next slash.
\<close>

definition segment_after :: "string \<Rightarrow> string \<Rightarrow> string" where
  "segment_after prefix p = takeWhile (\<lambda>c. c \<noteq> CHR ''/'') (drop (length prefix) p)"

definition remove_leading_slash :: "string \<Rightarrow> string" where
  "remove_leading_slash p =
     (case p of [] \<Rightarrow> [] | c # cs \<Rightarrow> if c = CHR ''/'' then cs else p)"

definition identifier_rules ::
  "string list \<Rightarrow> parsed_url \<Rightarrow> (string \<rightharpoonup> string list) \<Rightarrow> string option" where
  "identifier_rules hosts parsed params =
     (if url_hostname parsed = Some ''youtu.be'' then Some (remove_leading_slash (url_path parsed))
      else if url_hostname parsed \<in> Some ` set hosts \<and> url_path parsed = ''/watch''
      then (case params ''v'' of Some (v # _) \<Rightarrow> Some v | _ \<Rightarrow> None)
      else if url_hostname parsed \<in> Some ` set hosts \<and> startswith (url_path parsed) ''/embed/''
      then Some (segment_after ''/embed/'' (url_path parsed))
      else if url_hostname parsed \<in> Some ` set hosts \<and> startswith (url_path parsed) ''/v/''
      then Some (segment_after ''/v/'' (url_path parsed))
      else None)"

text \<open>
  What \<open>urlparse\<close> guarantees about the path of a URL that has a host: it is empty or
  starts with a slash.
\<close>

definition path_wellformed :: "parsed_url \<Rightarrow> bool" where
  "path_wellformed parsed =
     (url_hostname parsed = None \<or> url_path parsed = [] \<or> hd (url_path parsed) = CHR ''/'')"

section \<open>The orchestrator: \<open>get_transcript_data\<close>\<close>





















section \<open>Example inputs\<close>

definition hello_markup :: string where
  "hello_markup =
     ''00:00:01.000 --> 00:00:03.000'' @ [LF] @ ''<c>Hello</c> world'' @ [LF] @ [LF]"


definition tag_only_cue :: string where
  "tag_only_cue =
     ''00:00:01.000 --> 00:00:02.000'' @ [LF] @ ''<c></c>'' @ [LF] @ [LF] @
     ''00:00:03.000 --> 00:00:04.000'' @ [LF] @ ''hi''"

definition nine_lines :: string where
  "nine_lines = ''a'' @ [LF] @ ''b'' @ [LF] @ ''c'' @ [LF] @ ''d'' @ [LF] @ ''e'' @ [LF] @
                ''f'' @ [LF] @ ''g'' @ [LF] @ ''h'' @ [LF] @ ''i''"

definition blank_tag_markup :: string where
  "blank_tag_markup = ''<b> </b>'' @ [LF] @ ''x''"

text \<open>
  The values of \<open>urlparse\<close> and \<open>parse_qs\<close> on the URLs of the examples, a downloader
  that stages the given text under the first expected name, an empty file system, and two
  tokenizers.
\<close>

definition urlparse_table :: "string \<Rightarrow> parsed_url option" where
  "urlparse_table url =
     (if url = ''https://youtu.be/abc''
      then Some \<lparr>url_hostname = Some ''youtu.be'', url_path = ''/abc'', url_query = []\<rparr>
      else if url = ''https://m.youtube.com/embed/abc''
      then Some \<lparr>url_hostname = Some ''m.youtube.com'', url_path = ''/embed/abc'', url_query = []\<rparr>
      else if url = ''https://m.youtube.com/watch?v=abc''
      then Some \<lparr>url_hostname = Some ''m.youtube.com'', url_path = ''/watch'', url_query = ''v=abc''\<rparr>
      else if url = ''https://www.youtube.com/watch?v=abc''
      then Some \<lparr>url_hostname = Some ''www.youtube.com'', url_path = ''/watch'', url_query = ''v=abc''\<rparr>
      else Some \<lparr>url_hostname = None, url_path = url, url_query = []\<rparr>)"

definition parse_qs_table :: "string \<Rightarrow> string \<rightharpoonup> string list" where
  "parse_qs_table q = (if q = ''v=abc'' then [''v'' \<mapsto> [''abc'']] else Map.empty)"






section \<open>Stripping is idempotent\<close>

lemma delim_match_Nil: "\<not> delim_match r []"
  by (simp add: delim_match_def)

lemma delim_match_Cons: "delim_match r (d # ds) \<longleftrightarrow> d \<noteq> r \<and> r \<in> set (d # ds)"
  by (auto simp: delim_match_def dest: set_dropWhileD)

lemma delim_match_absent: "r \<notin> set cs \<Longrightarrow> \<not> delim_match r cs"
  by (cases cs) (auto simp: delim_match_Nil delim_match_Cons)

lemma set_tl_subset: "set (tl ys) \<subseteq> set ys"
  by (cases ys) auto

lemma sub_delim_skip:
  "\<not> (c = l \<and> delim_match r cs) \<Longrightarrow> sub_delim l r (c # cs) = c # sub_delim l r cs"
  by auto

lemma sub_delim_take:
  "c = l \<and> delim_match r cs \<Longrightarrow> sub_delim l r (c # cs) = sub_delim l r (after_match r cs)"
  by auto

lemma set_after_match: "set (after_match r cs) \<subseteq> set cs"
proof -
  have "set (tl (dropWhile (\<lambda>x. x \<noteq> r) cs)) \<subseteq> set (dropWhile (\<lambda>x. x \<noteq> r) cs)"
    by (rule set_tl_subset)
  also have "\<dots> \<subseteq> set cs"
    by (auto dest: set_dropWhileD)
  finally show ?thesis by (simp add: after_match_def)
qed

lemma set_sub_delim: "set (sub_delim l r s) \<subseteq> set s"
proof (induction l r s rule: sub_delim.induct)
  case (1 l r)
  show ?case by simp
next
  case (2 l r c cs)
  show ?case
  proof (cases "c = l \<and> delim_match r cs")
    case True
    with 2(1)[OF True] set_after_match[of r cs] show ?thesis
      unfolding sub_delim_take[OF True] by auto
  next
    case False
    with 2(2)[OF False] show ?thesis
      unfolding sub_delim_skip[OF False] by auto
  qed
qed

lemma delim_clean_no_match:
  "delim_clean l r (c # cs) \<Longrightarrow> \<not> (c = l \<and> delim_match r cs)"
  by (cases cs) (auto simp: delim_match_Nil delim_match_Cons)

lemma delim_clean_fix: "delim_clean l r s \<Longrightarrow> sub_delim l r s = s"
proof (induction s)
  case Nil
  show ?case by simp
next
  case (Cons c cs)
  then have ih: "sub_delim l r cs = cs" by simp
  from ih show ?case
    unfolding sub_delim_skip[OF delim_clean_no_match[OF Cons.prems]] by simp
qed

lemma sub_delim_keeps_closer: "l \<noteq> r \<Longrightarrow> sub_delim l r (r # ds) = r # sub_delim l r ds"
  by simp

lemma delim_clean_sub: "l \<noteq> r \<Longrightarrow> delim_clean l r (sub_delim l r s)"
proof (induction l r s rule: sub_delim.induct)
  case (1 l r)
  show ?case by simp
next
  case (2 l r c cs)
  show ?case
  proof (cases "c = l \<and> delim_match r cs")
    case True
    with 2(1)[OF True] 2(3) show ?thesis
      unfolding sub_delim_take[OF True] by simp
  next
    case False
    have ih: "delim_clean l r (sub_delim l r cs)" using 2(2)[OF False] 2(3) .
    have "c \<noteq> l \<or> sub_delim l r cs = [] \<or> hd (sub_delim l r cs) = r \<or> r \<notin> set (sub_delim l r cs)"
    proof (cases "c = l")
      case c: True
      with False have nm: "\<not> delim_match r cs" by simp
      show ?thesis
      proof (cases cs)
        case Nil then show ?thesis by simp
      next
        case (Cons d ds)
        with nm have "d = r \<or> r \<notin> set cs" by (auto simp: delim_match_Cons)
        then show ?thesis
        proof
          assume "d = r"
          with Cons sub_delim_keeps_closer[OF 2(3), of ds] show ?thesis by simp
        next
          assume "r \<notin> set cs"
          with set_sub_delim[of l r cs] show ?thesis by auto
        qed
      qed
    qed simp
    with ih show ?thesis
      unfolding sub_delim_skip[OF False] by simp
  qed
qed

lemma delim_clean_after_match: "delim_clean l r s \<Longrightarrow> delim_clean l r (after_match b s)"
  unfolding after_match_def by (induction s) auto

lemma delim_clean_other:
  "a \<noteq> l \<Longrightarrow> a \<noteq> r \<Longrightarrow> delim_clean l r s \<Longrightarrow> delim_clean l r (sub_delim a b s)"
proof (induction a b s rule: sub_delim.induct)
  case (1 a b)
  show ?case by simp
next
  case (2 a b c cs)
  from 2(5) have cl: "delim_clean l r cs" by simp
  show ?case
  proof (cases "c = a \<and> delim_match b cs")
    case True
    from cl have "delim_clean l r (after_match b cs)" by (rule delim_clean_after_match)
    with 2(1)[OF True 2(3) 2(4)] show ?thesis
      unfolding sub_delim_take[OF True] by simp
  next
    case False
    have ih: "delim_clean l r (sub_delim a b cs)" using 2(2)[OF False 2(3) 2(4) cl] .
    have "c \<noteq> l \<or> sub_delim a b cs = [] \<or> hd (sub_delim a b cs) = r \<or> r \<notin> set (sub_delim a b cs)"
    proof (cases "c = l")
      case c: True
      with 2(5) have "cs = [] \<or> hd cs = r \<or> r \<notin> set cs" by simp
      then show ?thesis
      proof (elim disjE)
        assume "cs = []" then show ?thesis by simp
      next
        assume h: "hd cs = r"
        show ?thesis
        proof (cases cs)
          case Nil then show ?thesis by simp
        next
          case (Cons d ds)
          with h have "d = r" by simp
          with Cons 2(4) have "sub_delim a b cs = r # sub_delim a b ds" 
            by auto
          then show ?thesis by simp
        qed
      next
        assume "r \<notin> set cs"
        with set_sub_delim[of a b cs] show ?thesis by auto
      qed
    qed simp
    with ih show ?thesis
      unfolding sub_delim_skip[OF False] by simp
  qed
qed

text \<open>
  Claim C7. Stripping tags and then braces is idempotent: applied to its own output, the
  stripping function returns that output unchanged, for every string.
\<close>

theorem strip_markup_idempotent: "strip_markup (strip_markup s) = strip_markup s"
proof -
  let ?t = "sub_delim (CHR ''<'') (CHR ''>'') s"
  have t: "delim_clean (CHR ''<'') (CHR ''>'') ?t" by (rule delim_clean_sub) simp
  have 1: "delim_clean (CHR ''<'') (CHR ''>'') (strip_markup s)"
    unfolding strip_markup_def by (rule delim_clean_other[OF _ _ t]) simp_all
  have 2: "delim_clean (CHR ''{'') (CHR ''}'') (strip_markup s)"
    unfolding strip_markup_def by (rule delim_clean_sub) simp
  have "sub_delim (CHR ''<'') (CHR ''>'') (strip_markup s) = strip_markup s"
    by (rule delim_clean_fix[OF 1])
  moreover have "sub_delim (CHR ''{'') (CHR ''}'') (strip_markup s) = strip_markup s"
    by (rule delim_clean_fix[OF 2])
  ultimately show ?thesis by (simp add: strip_markup_def)
qed

section \<open>The timestamped renderer\<close>





text \<open>
  Claim C2. A cue whose only text line consists of tags passes the peek (the raw next line
  is not empty), so its marker is appended, followed by the empty stripped line and the
  blank line: the marker is not followed by text and the cue does contribute output.
\<close>

theorem tag_only_cue_keeps_marker:
  "parse_vtt_with_timestamps tag_only_cue =
     ''[00:00:01.000 --> 00:00:02.000]'' @ [LF] @ [LF] @ [LF] @
     ''[00:00:03.000 --> 00:00:04.000]'' @ [LF] @ ''hi''"
  by code_simp

lemma lstrip_rstrip_fixed:
  assumes "lstrip t = t"
  shows "lstrip (rstrip t) = rstrip t"
proof (cases "rstrip t")
  case Nil
  then show ?thesis by (simp add: lstrip_def)
next
  case (Cons a as)
  have pre: "\<exists>ys. t = rstrip t @ ys"
  proof
    have "rstrip t @ rev (takeWhile is_space (rev t)) =
            rev (takeWhile is_space (rev t) @ dropWhile is_space (rev t))"
      unfolding rstrip_def rev_append ..
    also have "\<dots> = t" unfolding takeWhile_dropWhile_id rev_rev_ident ..
    finally show "t = rstrip t @ rev (takeWhile is_space (rev t))" by (rule sym)
  qed
  with Cons obtain ys where t: "t = a # as @ ys" by auto
  have "\<not> is_space a"
  proof
    assume "is_space a"
    then have "lstrip t = dropWhile is_space (as @ ys)"
      unfolding lstrip_def by (subst t) simp
    moreover have "length (dropWhile is_space (as @ ys)) \<le> length (as @ ys)"
      by (rule length_dropWhile_le)
    moreover have "length t = Suc (length (as @ ys))" by (subst t) simp
    ultimately have "length (lstrip t) < length t" by simp
    with assms show False by simp
  qed
  with Cons show ?thesis by (simp add: lstrip_def)
qed

lemma strip_strip: "strip (strip s) = strip s"
proof -
  have 1: "lstrip (lstrip s) = lstrip s" by (simp add: lstrip_def)
  have 2: "rstrip (rstrip t) = rstrip t" for t by (simp add: rstrip_def)
  show ?thesis unfolding strip_def lstrip_rstrip_fixed[OF 1] 2 ..
qed

text \<open>
  Claim C5, as amended. For the cue line, the text line \<open><c>Hello</c> world\<close> and a blank
  line, the renderer returns the marker line and \<open>Hello world\<close> with no trailing newline:
  the final string is trimmed, as it is for every input.
\<close>

theorem parse_vtt_hello_trimmed:
  "parse_vtt_with_timestamps hello_markup =
     ''[00:00:01.000 --> 00:00:03.000]'' @ [LF] @ ''Hello world''
   \<and> strip (parse_vtt_with_timestamps vtt_content) = parse_vtt_with_timestamps vtt_content"
proof
  show "parse_vtt_with_timestamps hello_markup =
     ''[00:00:01.000 --> 00:00:03.000]'' @ [LF] @ ''Hello world''"
    by code_simp
  show "strip (parse_vtt_with_timestamps vtt_content) = parse_vtt_with_timestamps vtt_content"
    unfolding parse_vtt_with_timestamps_def by (rule strip_strip)
qed

text \<open>The string with the trailing newline is not what the renderer returns.\<close>

theorem parse_vtt_hello_newline_counterexample:
  "parse_vtt_with_timestamps hello_markup \<noteq>
     ''[00:00:01.000 --> 00:00:03.000]'' @ [LF] @ ''Hello world'' @ [LF]"
  by code_simp

section \<open>The grouping loops compute consecutive groups\<close>

lemma chunks_Cons: "0 < n \<Longrightarrow> chunks n (x # xs) = take n (x # xs) # chunks n (drop n (x # xs))"
  by simp

lemma group_loop_chunks_gen:
  "0 < n \<Longrightarrow> length cur < n \<Longrightarrow> xs \<noteq> [] \<Longrightarrow>
     group_loop n xs cur = map (str_join '' '') (chunks n (cur @ xs))"
proof (induction xs arbitrary: cur)
  case Nil
  then show ?case by simp
next
  case (Cons x xs)
  define cur' where "cur' = cur @ [x]"
  obtain y ys where ne: "cur' @ xs = y # ys" by (cases "cur' @ xs") (auto simp: cur'_def)
  have unf: "chunks n (cur' @ xs) = take n (cur' @ xs) # chunks n (drop n (cur' @ xs))"
    unfolding ne using Cons.prems(1) by (rule chunks_Cons)
  have goal: "group_loop n (x # xs) cur = map (str_join '' '') (chunks n (cur' @ xs))"
  proof (cases "n \<le> length cur' \<or> xs = []")
    case True
    then have gl: "group_loop n (x # xs) cur = str_join '' '' cur' # group_loop n xs []"
      by (simp add: cur'_def)
    from Cons.prems(2) have le: "length cur' \<le> n" by (simp add: cur'_def)
    from True le have alt: "n = length cur' \<or> xs = []" by auto
    have tk: "take n (cur' @ xs) = cur'" using alt le by (elim disjE) simp_all
    have dr: "drop n (cur' @ xs) = xs" using alt le by (elim disjE) simp_all
    have rest: "group_loop n xs [] = map (str_join '' '') (chunks n xs)"
    proof (cases xs)
      case Nil then show ?thesis by simp
    next
      case (Cons z zs)
      then have "xs \<noteq> []" by simp
      from Cons.IH[OF \<open>0 < n\<close> _ this, of "[]"] \<open>0 < n\<close> show ?thesis by simp
    qed
    show ?thesis unfolding unf gl tk dr rest by simp
  next
    case False
    then have lt: "length cur' < n" and xne: "xs \<noteq> []" by auto
    from False have gl: "group_loop n (x # xs) cur = group_loop n xs cur'"
      by (simp add: cur'_def)
    show ?thesis unfolding gl by (rule Cons.IH[OF \<open>0 < n\<close> lt xne])
  qed
  then show ?case by (simp add: cur'_def)
qed

lemma group_loop_chunks:
  "0 < n \<Longrightarrow> group_loop n xs [] = map (str_join '' '') (chunks n xs)"
  using group_loop_chunks_gen[of n "[]" xs] by (cases xs) simp_all

lemma chunks_IH_pre: "0 < (n::nat) \<Longrightarrow> \<not> n = 0"
  by simp

lemma concat_chunks: "0 < n \<Longrightarrow> concat (chunks n xs) = xs"
proof (induction n xs rule: chunks.induct)
  case (1 n) show ?case by simp
next
  case (2 n x xs)
  define ys where "ys = drop n (x # xs)"
  define g where "g = take n (x # xs)"
  have unf: "chunks n (x # xs) = g # chunks n ys"
    unfolding g_def ys_def using 2(2) by (rule chunks_Cons)
  have ih: "concat (chunks n ys) = ys"
    unfolding ys_def using 2(1)[OF chunks_IH_pre[OF 2(2)] 2(2)] .
  have "g @ ys = x # xs" unfolding g_def ys_def by (rule append_take_drop_id)
  then show ?case unfolding unf using ih by simp
qed

lemma length_chunks: "0 < n \<Longrightarrow> length (chunks n xs) = (length xs + n - 1) div n"
proof (induction n xs rule: chunks.induct)
  case (1 n) then show ?case by simp
next
  case (2 n x xs)
  define L where "L = length (x # xs)"
  define ys where "ys = drop n (x # xs)"
  define g where "g = take n (x # xs)"
  have L: "0 < L" by (simp add: L_def)
  have unf: "chunks n (x # xs) = g # chunks n ys"
    unfolding g_def ys_def using 2(2) by (rule chunks_Cons)
  have lys: "length ys = L - n" unfolding ys_def L_def by (rule length_drop)
  have ih: "length (chunks n ys) = (L - n + n - 1) div n"
    using 2(1)[OF chunks_IH_pre[OF 2(2)] 2(2)] unfolding ys_def[symmetric] lys .
  have step: "length (chunks n (x # xs)) = Suc ((L - n + n - 1) div n)"
    unfolding unf using ih by simp
  obtain a where La: "L = Suc a" using L by (cases L) auto
  have "Suc ((L - n + n - 1) div n) = (L + n - 1) div n"
  proof (cases "n \<le> L")
    case True
    then have e0: "L - n + n - 1 = a" unfolding La by arith
    have e1: "L + n - 1 = a + n" unfolding La by arith
    have "(a + n) div n = Suc (a div n)" using 2(2) by (simp add: div_add_self2)
    then show ?thesis unfolding e0 e1 by (rule sym)
  next
    case False
    then have e0: "L - n + n - 1 = n - 1" by arith
    have b: "(n - 1) div n = 0" using 2(2) by simp
    have e1: "L + n - 1 = a + n" unfolding La by arith
    from False have "a div n = 0" unfolding La by simp
    then have "(a + n) div n = 1" using 2(2) by (simp add: div_add_self2)
    then have "(L + n - 1) div n = 1" unfolding e1 .
    then show ?thesis unfolding e0 b by arith
  qed
  with step show ?case unfolding L_def by (simp only:)
qed

lemma chunk_sizes:
  "0 < n \<Longrightarrow> g \<in> set (chunks n xs) \<Longrightarrow> 0 < length g \<and> length g \<le> n"
proof (induction n xs rule: chunks.induct)
  case (1 n) then show ?case by simp
next
  case (2 n x xs)
  define ys where "ys = drop n (x # xs)"
  define h where "h = take n (x # xs)"
  have unf: "chunks n (x # xs) = h # chunks n ys"
    unfolding h_def ys_def using 2(2) by (rule chunks_Cons)
  have h: "0 < length h \<and> length h \<le> n" unfolding h_def using 2(2) by simp
  from 2(3) have "g = h \<or> g \<in> set (chunks n ys)" unfolding unf by simp
  then show ?case
  proof
    assume "g = h" with h show ?thesis by simp
  next
    assume "g \<in> set (chunks n ys)"
    then show ?thesis
      using 2(1)[OF chunks_IH_pre[OF 2(2)] 2(2)] unfolding ys_def by simp
  qed
qed

lemma chunk_full:
  "0 < n \<Longrightarrow> g \<in> set (butlast (chunks n xs)) \<Longrightarrow> length g = n"
proof (induction n xs rule: chunks.induct)
  case (1 n) then show ?case by simp
next
  case (2 n x xs)
  define ys where "ys = drop n (x # xs)"
  define h where "h = take n (x # xs)"
  have unf: "chunks n (x # xs) = h # chunks n ys"
    unfolding h_def ys_def using 2(2) by (rule chunks_Cons)
  show ?case
  proof (cases "chunks n ys = []")
    case True
    with 2(3) show ?thesis unfolding unf by simp
  next
    case False
    then have "ys \<noteq> []" by auto
    then have "n < length (x # xs)" unfolding ys_def by simp
    then have lh: "length h = n" unfolding h_def by simp
    from 2(3) False have "g = h \<or> g \<in> set (butlast (chunks n ys))"
      unfolding unf by simp
    then show ?thesis
    proof
      assume "g = h" with lh show ?thesis by simp
    next
      assume "g \<in> set (butlast (chunks n ys))"
      then show ?thesis
        using 2(1)[OF chunks_IH_pre[OF 2(2)] 2(2)] unfolding ys_def by simp
    qed
  qed
qed

section \<open>Trimming, joining and the blank-line separator\<close>

lemma is_space_LF: "is_space LF" by (simp add: is_space_def LF_def)
lemma is_space_SP: "is_space (CHR '' '')" by (simp add: is_space_def)
lemma is_linebreak_LF: "is_linebreak LF" by (simp add: is_linebreak_def LF_def)
lemma SP_neq_LF: "CHR '' '' \<noteq> LF" by (simp add: LF_def)

lemma rstrip_Nil: "rstrip [] = []" by (simp add: rstrip_def)

lemma rstrip_Cons:
  "rstrip (c # cs) = (if (\<forall>x \<in> set (c # cs). is_space x) then [] else c # rstrip cs)"
proof (cases "\<forall>x \<in> set cs. is_space x")
  case True
  then have "dropWhile is_space (rev cs) = []" by simp
  with True show ?thesis by (simp add: rstrip_def dropWhile_append)
next
  case False
  then show ?thesis by (auto simp: rstrip_def dropWhile_append)
qed

lemma rstrip_eq_Nil: "rstrip s = [] \<longleftrightarrow> (\<forall>x \<in> set s. is_space x)"
  by (simp add: rstrip_def dropWhile_eq_Nil_conv)

lemma replace_lstrip: "replace_blank_lines (lstrip s) = lstrip (replace_blank_lines s)"
  unfolding lstrip_def
proof (induction s rule: replace_blank_lines.induct)
  case (1 a b cs)
  show ?case
  proof (cases "a = LF \<and> b = LF")
    case True
    with 1(1) show ?thesis by (simp add: is_space_LF is_space_SP)
  next
    case False
    with 1(2) show ?thesis by (cases "is_space a") auto
  qed
qed simp_all

lemma replace_all_space:
  "(\<forall>x \<in> set (replace_blank_lines s). is_space x) \<longleftrightarrow> (\<forall>x \<in> set s. is_space x)"
  by (induction s rule: replace_blank_lines.induct) (auto simp: is_space_LF is_space_SP)

lemma replace_Cons_keep:
  "\<not> (a = LF \<and> hd s = LF) \<or> s = [] \<Longrightarrow> replace_blank_lines (a # s) = a # replace_blank_lines s"
  by (cases s) auto

lemma hd_rstrip: "rstrip s \<noteq> [] \<Longrightarrow> hd (rstrip s) = hd s"
  by (cases s) (auto simp: rstrip_Nil rstrip_Cons split: if_splits)

lemma replace_rstrip: "replace_blank_lines (rstrip s) = rstrip (replace_blank_lines s)"
proof (induction s rule: replace_blank_lines.induct)
  case (1 a b cs)
  show ?case
  proof (cases "a = LF \<and> b = LF")
    case True
    then have r: "replace_blank_lines (a # b # cs) = CHR '' '' # replace_blank_lines cs" by simp
    show ?thesis
    proof (cases "\<forall>x \<in> set cs. is_space x")
      case sp: True
      then have "rstrip (a # b # cs) = []" using True by (simp add: rstrip_eq_Nil is_space_LF)
      moreover have "rstrip (CHR '' '' # replace_blank_lines cs) = []"
        using sp by (simp add: rstrip_eq_Nil is_space_SP replace_all_space)
      ultimately show ?thesis unfolding r by simp
    next
      case nsp: False
      then have "rstrip (a # b # cs) = a # b # rstrip cs" by (auto simp: rstrip_Cons)
      moreover have "rstrip (CHR '' '' # replace_blank_lines cs) = CHR '' '' # rstrip (replace_blank_lines cs)"
        using nsp by (simp add: rstrip_Cons replace_all_space)
      ultimately show ?thesis unfolding r using True 1(1) by simp
    qed
  next
    case False
    then have r: "replace_blank_lines (a # b # cs) = a # replace_blank_lines (b # cs)" by auto
    show ?thesis
    proof (cases "\<forall>x \<in> set (a # b # cs). is_space x")
      case sp: True
      then have "rstrip (a # b # cs) = []" by (simp add: rstrip_eq_Nil)
      moreover have "\<forall>x \<in> set (a # replace_blank_lines (b # cs)). is_space x"
        using sp replace_all_space[of "b # cs"] by simp
      then have "rstrip (a # replace_blank_lines (b # cs)) = []" by (simp only: rstrip_eq_Nil)
      ultimately show ?thesis unfolding r by simp
    next
      case nsp: False
      then have l: "rstrip (a # b # cs) = a # rstrip (b # cs)" by (simp only: rstrip_Cons if_False)
      have "\<not> (\<forall>x \<in> set (a # replace_blank_lines (b # cs)). is_space x)"
        using nsp replace_all_space[of "b # cs"] by simp
      then have rr: "rstrip (a # replace_blank_lines (b # cs)) = a # rstrip (replace_blank_lines (b # cs))"
        by (simp only: rstrip_Cons if_False)
      have "replace_blank_lines (a # rstrip (b # cs)) = a # replace_blank_lines (rstrip (b # cs))"
      proof (rule replace_Cons_keep)
        show "\<not> (a = LF \<and> hd (rstrip (b # cs)) = LF) \<or> rstrip (b # cs) = []"
        proof (cases "rstrip (b # cs) = []")
          case True then show ?thesis by simp
        next
          case ne: False
          from hd_rstrip[OF ne] have "hd (rstrip (b # cs)) = b" by simp
          with False show ?thesis by simp
        qed
      qed
      with 1(2)[OF False] show ?thesis unfolding r l rr by simp
    qed
  qed
qed (simp_all add: rstrip_Cons rstrip_Nil)

lemma replace_strip: "replace_blank_lines (strip s) = strip (replace_blank_lines s)"
  by (simp add: strip_def replace_rstrip replace_lstrip)

lemma replace_no_LF: "LF \<notin> set p \<Longrightarrow> replace_blank_lines p = p"
  by (induction p rule: replace_blank_lines.induct) auto

lemma replace_sep:
  "LF \<notin> set p \<Longrightarrow> replace_blank_lines (p @ LF # LF # rest) = p @ CHR '' '' # replace_blank_lines rest"
proof (induction p)
  case Nil
  show ?case by simp
next
  case (Cons a p)
  obtain b cs where e: "p @ LF # LF # rest = b # cs" by (cases "p @ LF # LF # rest") auto
  from Cons.prems have "a \<noteq> LF" by auto
  then have "replace_blank_lines (a # b # cs) = a # replace_blank_lines (b # cs)" by simp
  with Cons e show ?case by simp
qed

lemma replace_join:
  "\<forall>p \<in> set ps. LF \<notin> set p \<Longrightarrow>
     replace_blank_lines (str_join [LF, LF] ps) = str_join '' '' ps"
proof (induction ps)
  case Nil
  show ?case by simp
next
  case (Cons x ps)
  show ?case
  proof (cases ps)
    case Nil
    with Cons.prems show ?thesis by (simp add: replace_no_LF)
  next
    case (Cons y ys)
    from Cons.prems have x: "LF \<notin> set x" by simp
    from Cons.IH Cons.prems
    have ih: "replace_blank_lines (str_join [LF, LF] ps) = str_join '' '' ps" by simp
    show ?thesis
      unfolding Cons str_join.simps using replace_sep[OF x] ih[unfolded Cons] by simp
  qed
qed

lemma str_join_append:
  "xs \<noteq> [] \<Longrightarrow> ys \<noteq> [] \<Longrightarrow>
     str_join sep (xs @ ys) = str_join sep xs @ sep @ str_join sep ys"
proof (induction xs)
  case Nil
  then show ?case by simp
next
  case (Cons x xs)
  show ?case
  proof (cases xs)
    case Nil
    with Cons.prems show ?thesis by (cases ys) simp_all
  next
    case (Cons z zs)
    with Cons.IH Cons.prems show ?thesis by simp
  qed
qed

lemma join_chunks:
  "0 < n \<Longrightarrow> str_join sep (map (str_join sep) (chunks n xs)) = str_join sep xs"
proof (induction n xs rule: chunks.induct)
  case (1 n)
  show ?case by simp
next
  case (2 n x xs)
  define ys where "ys = drop n (x # xs)"
  define g where "g = take n (x # xs)"
  have unf: "chunks n (x # xs) = g # chunks n ys"
    unfolding g_def ys_def using 2(2) by (rule chunks_Cons)
  have ih: "str_join sep (map (str_join sep) (chunks n ys)) = str_join sep ys"
    unfolding ys_def using 2(1)[OF chunks_IH_pre[OF 2(2)] 2(2)] .
  have gy: "g @ ys = x # xs" unfolding g_def ys_def by (rule append_take_drop_id)
  have gne: "g \<noteq> []" unfolding g_def using 2(2) by simp
  show ?case
  proof (cases ys)
    case Nil
    with gy have "g = x # xs" by simp
    with Nil show ?thesis unfolding unf by simp
  next
    case (Cons y ys')
    then have yne: "ys \<noteq> []" by simp
    obtain c cs where ch: "chunks n ys = c # cs"
      using Cons 2(2) by (cases "chunks n ys") auto
    have "str_join sep (map (str_join sep) (chunks n (x # xs))) =
            str_join sep g @ sep @ str_join sep (map (str_join sep) (chunks n ys))"
      unfolding unf ch by simp
    also have "\<dots> = str_join sep g @ sep @ str_join sep ys" unfolding ih ..
    also have "\<dots> = str_join sep (g @ ys)" using str_join_append[OF gne yne] by simp
    finally show ?thesis unfolding gy .
  qed
qed

lemma set_str_join: "set (str_join sep xs) \<subseteq> set sep \<union> (\<Union>x \<in> set xs. set x)"
  by (induction sep xs rule: str_join.induct) auto

lemma set_lstrip: "set (lstrip s) \<subseteq> set s"
  unfolding lstrip_def by (auto dest: set_dropWhileD)

lemma set_rstrip: "set (rstrip s) \<subseteq> set s"
  unfolding rstrip_def by (auto dest: set_dropWhileD)

lemma set_strip: "set (strip s) \<subseteq> set s"
  unfolding strip_def using set_lstrip[of s] set_rstrip[of "lstrip s"] by blast

lemma set_strip_markup: "set (strip_markup s) \<subseteq> set s"
  unfolding strip_markup_def
  using set_sub_delim[of "CHR ''{''" "CHR ''}''" "sub_delim (CHR ''<'') (CHR ''>'') s"]
    set_sub_delim[of "CHR ''<''" "CHR ''>''" s] by blast

lemma splitlines_from_no_LF:
  "LF \<notin> set cur \<Longrightarrow> l \<in> set (splitlines_from cur s) \<Longrightarrow> LF \<notin> set l"
proof (induction cur s rule: splitlines_from.induct)
  case (1 cur)
  then show ?case by (auto split: if_splits)
next
  case (2 cur c)
  then show ?case using is_linebreak_LF by (auto split: if_splits)
next
  case (3 cur c d cs)
  show ?case
  proof (cases "c = CR \<and> d = LF")
    case True
    with 3(1)[OF True] 3(4,5) show ?thesis by auto
  next
    case nc: False
    show ?thesis
    proof (cases "is_linebreak c")
      case True
      with nc 3(2)[OF nc True] 3(4,5) show ?thesis by auto
    next
      case False
      then have "c \<noteq> LF" using is_linebreak_LF by auto
      with nc False 3(3)[OF nc False] 3(4,5) show ?thesis by auto
    qed
  qed
qed

lemma collect_segments_no_LF:
  "\<forall>l \<in> set ls. LF \<notin> set l \<Longrightarrow> s \<in> set (collect_segments ls) \<Longrightarrow> LF \<notin> set s"
proof (induction ls)
  case Nil
  then show ?case by simp
next
  case (Cons raw rest)
  from Cons.prems(1) have raw: "LF \<notin> set raw" and rest: "\<forall>l \<in> set rest. LF \<notin> set l"
    by simp_all
  have "set (strip (strip_markup (strip raw))) \<subseteq> set raw"
    using set_strip[of "strip_markup (strip raw)"] set_strip_markup[of "strip raw"]
      set_strip[of raw] by blast
  with raw have new: "LF \<notin> set (strip (strip_markup (strip raw)))" by blast
  from Cons.prems(2) have "s = strip (strip_markup (strip raw)) \<or> s \<in> set (collect_segments rest)"
    by (auto simp: Let_def split: if_splits)
  then show ?case using new Cons.IH[OF rest] by auto
qed

lemma text_segments_no_LF: "s \<in> set (text_segments c) \<Longrightarrow> LF \<notin> set s"
  unfolding text_segments_def splitlines_def
  using collect_segments_no_LF[of "splitlines_from [] (strip c)" s] splitlines_from_no_LF[of "[]"]
  by auto

lemma set_chunk: "0 < n \<Longrightarrow> g \<in> set (chunks n xs) \<Longrightarrow> set g \<subseteq> set xs"
proof -
  assume n: "0 < n" and g: "g \<in> set (chunks n xs)"
  then have "set g \<subseteq> set (concat (chunks n xs))" by auto
  then show ?thesis unfolding concat_chunks[OF n] .
qed

lemma paragraphs_no_LF:
  assumes "0 < n" and "\<forall>s \<in> set xs. LF \<notin> set s"
    and "p \<in> set (map (str_join '' '') (chunks n xs))"
  shows "LF \<notin> set p"
proof -
  from assms(3) obtain g where g: "g \<in> set (chunks n xs)" and p: "p = str_join '' '' g" by auto
  from set_chunk[OF assms(1) g] assms(2) have "\<forall>s \<in> set g. LF \<notin> set s" by auto
  with set_str_join[of "'' ''" g] show ?thesis unfolding p by (auto simp: LF_def)
qed

section \<open>The paragraph formatter\<close>

lemma format_with_sentences:
  assumes "text_segments c \<noteq> []"
    and "tok (str_join '' '' (text_segments c)) = Inr sentences"
  shows "format_transcript_into_paragraphs tok c spp lpp =
           strip (str_join [LF, LF]
             (if length sentences > MIN_SENTENCE_THRESHOLD (text_segments c)
              then group_loop spp sentences [] else group_loop lpp (text_segments c) []))"
  using assms by (simp add: format_transcript_into_paragraphs_def Let_def)

text \<open>
  Claim C3. With a non-empty segment list and a tokenizer that returns, the formatter
  compares the number of sentences with \<open>max 5 (segment_count div 10)\<close>. Above the
  threshold the paragraphs are the consecutive groups of 5 sentences, otherwise the
  consecutive groups of 8 segments; every group but the last is full, the last is not
  empty, the groups concatenate to the grouped sequence, and 8-grouping gives
  \<open>(segment_count + 7) div 8\<close> paragraphs. Each group is joined with single spaces, the
  paragraphs with a blank line between them, and the source trims the result.
\<close>

theorem format_paragraphs_grouping:
  assumes "text_segments c \<noteq> []"
    and "tok (str_join '' '' (text_segments c)) = Inr sentences"
  shows "format_transcript_into_paragraphs tok c 5 8 =
           strip (str_join [LF, LF] (map (str_join '' '')
             (if length sentences > max 5 (length (text_segments c) div 10)
              then chunks 5 sentences else chunks 8 (text_segments c))))
         \<and> concat (chunks 5 sentences) = sentences
         \<and> (\<forall>g \<in> set (butlast (chunks 5 sentences)). length g = 5)
         \<and> (\<forall>g \<in> set (chunks 5 sentences). 0 < length g \<and> length g \<le> 5)
         \<and> concat (chunks 8 (text_segments c)) = text_segments c
         \<and> (\<forall>g \<in> set (butlast (chunks 8 (text_segments c))). length g = 8)
         \<and> (\<forall>g \<in> set (chunks 8 (text_segments c)). 0 < length g \<and> length g \<le> 8)
         \<and> length (chunks 8 (text_segments c)) = (length (text_segments c) + 7) div 8"
proof -
  have p5: "(0::nat) < 5" and p8: "(0::nat) < 8" by simp_all
  have main: "format_transcript_into_paragraphs tok c 5 8 =
           strip (str_join [LF, LF] (map (str_join '' '')
             (if length sentences > max 5 (length (text_segments c) div 10)
              then chunks 5 sentences else chunks 8 (text_segments c))))"
    unfolding format_with_sentences[of c tok sentences, OF assms] group_loop_chunks[OF p5] group_loop_chunks[OF p8]
      MIN_SENTENCE_THRESHOLD_def by simp
  have len: "length (chunks 8 (text_segments c)) = (length (text_segments c) + 7) div 8"
    using length_chunks[OF p8, of "text_segments c"] by simp
  show ?thesis
    using main len concat_chunks[OF p5, of sentences] concat_chunks[OF p8, of "text_segments c"]
      chunk_full[OF p5, of _ sentences] chunk_full[OF p8, of _ "text_segments c"]
      chunk_sizes[OF p5, of _ sentences] chunk_sizes[OF p8, of _ "text_segments c"]
    by blast
qed

theorem format_paragraphs_grouping_witness:
  "format_transcript_into_paragraphs (\<lambda>s. Inr [s]) (''hello'' @ [LF] @ ''world'') 5 8 = ''hello world''"
proof -
  let ?c = "''hello'' @ [LF] @ ''world''"
  let ?tok = "\<lambda>s::string. (Inr [s] :: string + string list)"
  have h1: "text_segments ?c \<noteq> []" by code_simp
  have h2: "?tok (str_join '' '' (text_segments ?c)) = Inr [''hello world'']" by code_simp
  have rhs: "strip (str_join [LF, LF] (map (str_join '' '')
             (if length [''hello world''] > max 5 (length (text_segments ?c) div 10)
              then chunks 5 [''hello world''] else chunks 8 (text_segments ?c)))) = ''hello world''"
    by code_simp
  from format_paragraphs_grouping[of ?c ?tok "[''hello world'']", OF h1 h2]
  have "format_transcript_into_paragraphs ?tok ?c 5 8 =
      strip (str_join [LF, LF] (map (str_join '' '')
             (if length [''hello world''] > max 5 (length (text_segments ?c) div 10)
              then chunks 5 [''hello world''] else chunks 8 (text_segments ?c))))"
    by (rule conjunct1)
  then show ?thesis using rhs by (rule trans)
qed

text \<open>
  Claim C8. When no segment is extracted the formatter returns the message
  \<open>Could not extract text content for formatting.\<close> as its value, before the tokenizer
  is called and whatever the tokenizer would do; the empty markup is such an input.
\<close>

theorem format_paragraphs_nothing_extracted:
  "text_segments c = [] \<Longrightarrow>
     format_transcript_into_paragraphs tok c spp lpp =
       ''Could not extract text content for formatting.''"
  by (simp add: format_transcript_into_paragraphs_def no_text_message_def)

theorem format_paragraphs_nothing_extracted_witness:
  "text_segments [] = [] \<and>
   format_transcript_into_paragraphs (\<lambda>s. Inl ''tokenizer raised'') [] 5 8 =
     ''Could not extract text content for formatting.''"
proof -
  have h: "text_segments [] = []" by code_simp
  from format_paragraphs_nothing_extracted[OF h] h show ?thesis by simp
qed

text \<open>
  Claim C10, as amended. In fallback mode the output is the trimmed blank-line join of the
  groups of 8 segments; replacing each blank-line separator by a space gives the
  single-space join of the segments, trimmed of leading and trailing whitespace, and the
  groups concatenate to the segment sequence (nothing lost, duplicated or reordered).
\<close>

theorem fallback_grouping_keeps_segments:
  assumes "text_segments c \<noteq> []"
    and "tok (str_join '' '' (text_segments c)) = Inr sentences"
    and "length sentences \<le> MIN_SENTENCE_THRESHOLD (text_segments c)"
  shows "replace_blank_lines (format_transcript_into_paragraphs tok c 5 8) =
           strip (str_join '' '' (text_segments c))
         \<and> format_transcript_into_paragraphs tok c 5 8 =
             strip (str_join [LF, LF] (map (str_join '' '') (chunks 8 (text_segments c))))
         \<and> concat (chunks 8 (text_segments c)) = text_segments c"
proof -
  let ?segs = "text_segments c"
  let ?paras = "map (str_join '' '') (chunks 8 ?segs)"
  have p8: "(0::nat) < 8" by simp
  have out: "format_transcript_into_paragraphs tok c 5 8 = strip (str_join [LF, LF] ?paras)"
    unfolding format_with_sentences[of c tok sentences, OF assms(1,2)] group_loop_chunks[OF p8]
    using assms(3) by simp
  have noLF: "\<forall>p \<in> set ?paras. LF \<notin> set p"
    using paragraphs_no_LF[OF p8, of ?segs] text_segments_no_LF[of _ c] by blast
  have "replace_blank_lines (strip (str_join [LF, LF] ?paras)) =
          strip (replace_blank_lines (str_join [LF, LF] ?paras))"
    by (rule replace_strip)
  also have "\<dots> = strip (str_join '' '' ?paras)"
    unfolding replace_join[OF noLF] ..
  also have "\<dots> = strip (str_join '' '' ?segs)"
    unfolding join_chunks[OF p8] ..
  finally have "replace_blank_lines (format_transcript_into_paragraphs tok c 5 8) =
          strip (str_join '' '' ?segs)"
    unfolding out .
  with out concat_chunks[OF p8, of ?segs] show ?thesis by simp
qed

theorem fallback_grouping_keeps_segments_witness:
  "format_transcript_into_paragraphs (\<lambda>s. Inr [s]) nine_lines 5 8 =
     ''a b c d e f g h'' @ [LF, LF] @ ''i'' \<and>
   replace_blank_lines (format_transcript_into_paragraphs (\<lambda>s. Inr [s]) nine_lines 5 8) =
     ''a b c d e f g h i''"
proof -
  let ?tok = "\<lambda>s::string. (Inr [s] :: string + string list)"
  have h1: "text_segments nine_lines \<noteq> []" by code_simp
  have h2: "?tok (str_join '' '' (text_segments nine_lines)) = Inr [''a b c d e f g h i'']"
    by code_simp
  have h3: "length [''a b c d e f g h i''] \<le> MIN_SENTENCE_THRESHOLD (text_segments nine_lines)"
    by code_simp
  have r1: "strip (str_join '' '' (text_segments nine_lines)) = ''a b c d e f g h i''"
    by code_simp
  have r2: "strip (str_join [LF, LF] (map (str_join '' '') (chunks 8 (text_segments nine_lines))))
        = ''a b c d e f g h'' @ [LF, LF] @ ''i''"
    by code_simp
  note t = fallback_grouping_keeps_segments[of nine_lines ?tok "[''a b c d e f g h i'']", OF h1 h2 h3]
  from t have a: "replace_blank_lines (format_transcript_into_paragraphs ?tok nine_lines 5 8) =
      strip (str_join '' '' (text_segments nine_lines))" by (rule conjunct1)
  from t have b: "format_transcript_into_paragraphs ?tok nine_lines 5 8 =
      strip (str_join [LF, LF] (map (str_join '' '') (chunks 8 (text_segments nine_lines))))"
    by (rule conjunct1[OF conjunct2])
  from a r1 have A: "replace_blank_lines (format_transcript_into_paragraphs ?tok nine_lines 5 8) =
      ''a b c d e f g h i''" by (rule trans)
  from b r2 have B: "format_transcript_into_paragraphs ?tok nine_lines 5 8 =
      ''a b c d e f g h'' @ [LF, LF] @ ''i''" by (rule trans)
  from B A show ?thesis by (rule conjI)
qed

text \<open>
  Without the trimming the claim fails: a line holding only a blank inside tags gives an
  empty first segment, the join of the segments starts with a space and the output does
  not.
\<close>

theorem fallback_leading_space_counterexample:
  "text_segments blank_tag_markup = [[], ''x''] \<and>
   format_transcript_into_paragraphs (\<lambda>s. Inr [s]) blank_tag_markup 5 8 = ''x'' \<and>
   replace_blank_lines (format_transcript_into_paragraphs (\<lambda>s. Inr [s]) blank_tag_markup 5 8) = ''x'' \<and>
   str_join '' '' (text_segments blank_tag_markup) = '' x''"
  by code_simp

section \<open>The identifier extractor\<close>

lemma split_from_hd:
  "split_from sep cur s \<noteq> [] \<and> hd (split_from sep cur s) = cur @ takeWhile (\<lambda>c. c \<noteq> sep) s"
  by (induction s arbitrary: cur) auto

lemma startswith_split: "startswith p pre \<Longrightarrow> p = pre @ drop (length pre) p"
  unfolding startswith_def by (metis append_take_drop_id)

lemma index_2: "ys \<noteq> [] \<Longrightarrow> index_or_none (a # b # ys) 2 = Some (hd ys)"
  by (cases ys) (simp_all add: index_or_none_def)

lemma third_after_embed:
  assumes "startswith p ''/embed/''"
  shows "index_or_none (split_slash p) 2 = Some (segment_after ''/embed/'' p)"
proof -
  define r where "r = drop (length ''/embed/'') p"
  have p: "p = ''/embed/'' @ r" unfolding r_def using assms by (rule startswith_split)
  have sp: "split_slash (''/embed/'' @ r) = [] # ''embed'' # split_from (CHR ''/'') [] r"
    by (simp add: split_slash_def)
  have "index_or_none (split_slash p) 2 = Some (hd (split_from (CHR ''/'') [] r))"
    unfolding p sp using split_from_hd[of "CHR ''/''" "[]" r] by (intro index_2) simp
  then show ?thesis
    using split_from_hd[of "CHR ''/''" "[]" r] by (simp add: segment_after_def r_def)
qed

lemma third_after_v:
  assumes "startswith p ''/v/''"
  shows "index_or_none (split_slash p) 2 = Some (segment_after ''/v/'' p)"
proof -
  define r where "r = drop (length ''/v/'') p"
  have p: "p = ''/v/'' @ r" unfolding r_def using assms by (rule startswith_split)
  have sp: "split_slash (''/v/'' @ r) = [] # ''v'' # split_from (CHR ''/'') [] r"
    by (simp add: split_slash_def)
  have "index_or_none (split_slash p) 2 = Some (hd (split_from (CHR ''/'') [] r))"
    unfolding p sp using split_from_hd[of "CHR ''/''" "[]" r] by (intro index_2) simp
  then show ?thesis
    using split_from_hd[of "CHR ''/''" "[]" r] by (simp add: segment_after_def r_def)
qed

lemma first_v_rule:
  "first_v params = (case params ''v'' of Some (v # _) \<Rightarrow> Some v | _ \<Rightarrow> None)"
  by (simp add: first_v_def index_or_none_def split: option.splits list.splits)

lemma drop_leading_slash:
  "path_wellformed parsed \<Longrightarrow> url_hostname parsed = Some h \<Longrightarrow>
     drop 1 (url_path parsed) = remove_leading_slash (url_path parsed)"
  by (cases "url_path parsed") (auto simp: path_wellformed_def remove_leading_slash_def)

text \<open>
  Claim C6, as amended. Both versions follow the rules of the specification, each with
  its own list of recognized hosts: \<open>app.py\<close> recognizes www.youtube.com, youtube.com and
  the mobile m.youtube.com, for the watch rule and for the two prefix rules alike;
  \<open>script.py\<close> recognizes www.youtube.com and youtube.com only. A URL on which \<open>urlparse\<close>
  raises, a URL without a recognized host and a recognized host with another path give
  not-found.
\<close>

theorem extract_video_id_rules:
  assumes "\<And>parsed. urlparse url = Some parsed \<Longrightarrow> path_wellformed parsed"
  shows "extract_video_id urlparse parse_qs url =
           (case urlparse url of
              None \<Rightarrow> None
            | Some parsed \<Rightarrow>
                identifier_rules [''www.youtube.com'', ''youtube.com'', ''m.youtube.com'']
                  parsed (parse_qs (url_query parsed)))
         \<and> extract_video_id_script urlparse parse_qs url =
           (case urlparse url of
              None \<Rightarrow> None
            | Some parsed \<Rightarrow>
                identifier_rules [''www.youtube.com'', ''youtube.com'']
                  parsed (parse_qs (url_query parsed)))"
proof (cases "urlparse url")
  case None
  then show ?thesis by (simp add: extract_video_id_def extract_video_id_script_def)
next
  case (Some parsed)
  have wf: "url_hostname parsed = Some h \<Longrightarrow>
      drop 1 (url_path parsed) = remove_leading_slash (url_path parsed)" for h
    by (rule drop_leading_slash[OF assms[OF Some]])
  have e: "startswith (url_path parsed) ''/embed/'' \<Longrightarrow>
      index_or_none (split_slash (url_path parsed)) 2 = Some (segment_after ''/embed/'' (url_path parsed))"
    by (rule third_after_embed)
  have v: "startswith (url_path parsed) ''/v/'' \<Longrightarrow>
      index_or_none (split_slash (url_path parsed)) 2 = Some (segment_after ''/v/'' (url_path parsed))"
    by (rule third_after_v)
  have w: "url_path parsed = ''/watch'' \<Longrightarrow> \<not> startswith (url_path parsed) ''/embed/''"
    "url_path parsed = ''/watch'' \<Longrightarrow> \<not> startswith (url_path parsed) ''/v/''"
    by (simp_all add: startswith_def)
  have app: "extract_video_id urlparse parse_qs url =
      identifier_rules [''www.youtube.com'', ''youtube.com'', ''m.youtube.com'']
                  parsed (parse_qs (url_query parsed))"
    using Some wf e v by (auto simp: extract_video_id_def identifier_rules_def first_v_rule)
  have scr: "extract_video_id_script urlparse parse_qs url =
      identifier_rules [''www.youtube.com'', ''youtube.com'']
                  parsed (parse_qs (url_query parsed))"
    using Some wf e v by (auto simp: extract_video_id_script_def identifier_rules_def first_v_rule)
  from app scr Some show ?thesis by simp
qed

theorem extract_video_id_rules_witness:
  "extract_video_id urlparse_table parse_qs_table ''https://www.youtube.com/watch?v=abc'' = Some ''abc''
   \<and> extract_video_id_script urlparse_table parse_qs_table ''https://youtu.be/abc'' = Some ''abc''
   \<and> extract_video_id urlparse_table parse_qs_table ''not a url'' = None"
proof -
  have wf: "\<And>parsed u. urlparse_table u = Some parsed \<Longrightarrow> path_wellformed parsed"
    by (auto simp: urlparse_table_def path_wellformed_def split: if_splits)
  have a: "(case urlparse_table ''https://www.youtube.com/watch?v=abc'' of None \<Rightarrow> None
            | Some parsed \<Rightarrow> identifier_rules [''www.youtube.com'', ''youtube.com'', ''m.youtube.com'']
                  parsed (parse_qs_table (url_query parsed))) = Some ''abc''"
    by code_simp
  have b: "(case urlparse_table ''https://youtu.be/abc'' of None \<Rightarrow> None
            | Some parsed \<Rightarrow> identifier_rules [''www.youtube.com'', ''youtube.com'']
                  parsed (parse_qs_table (url_query parsed))) = Some ''abc''"
    by code_simp
  have c: "(case urlparse_table ''not a url'' of None \<Rightarrow> None
            | Some parsed \<Rightarrow> identifier_rules [''www.youtube.com'', ''youtube.com'', ''m.youtube.com'']
                  parsed (parse_qs_table (url_query parsed))) = None"
    by code_simp
  from extract_video_id_rules[of urlparse_table "''https://www.youtube.com/watch?v=abc''" parse_qs_table, OF wf]
    extract_video_id_rules[of urlparse_table "''https://youtu.be/abc''" parse_qs_table, OF wf]
    extract_video_id_rules[of urlparse_table "''not a url''" parse_qs_table, OF wf]
    a b c
  show ?thesis by simp
qed

text \<open>
  With the mobile domain recognized by the watch rule only, as the claim words it, the
  two versions differ from the claim: \<open>app.py\<close> returns the identifier of an embed path
  on the mobile domain, and \<open>script.py\<close> returns not-found for a watch URL on it.
\<close>

theorem mobile_host_counterexample:
  "extract_video_id urlparse_table parse_qs_table ''https://m.youtube.com/embed/abc'' = Some ''abc''
   \<and> extract_video_id_script urlparse_table parse_qs_table ''https://m.youtube.com/watch?v=abc'' = None"
  by code_simp

section \<open>The orchestrator\<close>















end
